theory Spec2Isabelle
  imports Main "HOL-Library.Word"
begin

section \<open>The delimiters of the dissect processor\<close>

text \<open>
  A shallow embedding of \<^verbatim>\<open>libbeat/processors/dissect/delimiter.go\<close>.

  \<^item> Go's \<^verbatim>\<open>int\<close> is modelled as a 64-bit word (the width on the 64-bit platforms the
    program is built for): \<open>+\<close> wraps around as Go's does, \<open>sint\<close> reads the signed value
    and \<open><s\<close>, \<open>\<le>s\<close> are the signed comparisons.
  \<^item> A Go \<^verbatim>\<open>string\<close> is a byte sequence: a \<open>string\<close> (a \<open>char list\<close>) whose length fits
    into an \<^verbatim>\<open>int\<close> (\<open>go_string\<close> below).
  \<^item> The three struct types embed \<^verbatim>\<open>baseDelimiter\<close>: a record for the embedded struct and
    a datatype with one constructor per struct type, so that a method call is dispatched
    on the constructor as Go dispatches it on the dynamic type.
  \<^item> A value of the interface type \<^verbatim>\<open>delimiter\<close> is \<^verbatim>\<open>nil\<close> or a pointer to such a
    struct: an \<open>addr option\<close>, the objects living in an explicit store.
  \<^item> A run-time panic is a value of type \<open>panic\<close>, returned on the left of a sum.
\<close>

type_synonym go_int = "64 word"

type_synonym addr = nat

datatype panic = SliceBoundsOutOfRange | NilPointerDereference

definition go_string :: "string \<Rightarrow> bool" where
  "go_string s = (length s < 2 ^ 63)"

subsection \<open>The structs\<close>

text \<open>
  \<^verbatim>\<open>type baseDelimiter struct { needle string; length int; greedy bool; next delimiter }\<close>.
  The fields \<^verbatim>\<open>length\<close> and \<^verbatim>\<open>next\<close> carry a suffix: the first name is the list
  function's, the second a keyword.
\<close>

record baseDelimiter =
  needle :: string
  length_fld :: go_int
  greedy :: bool
  next_fld :: "addr option"

text \<open>Go's zero value of the struct, what \<^verbatim>\<open>baseDelimiter{}\<close> denotes.\<close>

definition zero_baseDelimiter :: baseDelimiter where
  "zero_baseDelimiter = \<lparr>needle = [], length_fld = 0, greedy = False, next_fld = None\<rparr>"

text \<open>
  \<^verbatim>\<open>zeroByte\<close>, \<^verbatim>\<open>fixedLengthByte\<close> and \<^verbatim>\<open>multiByte\<close>, each a struct whose only member
  is the embedded \<^verbatim>\<open>baseDelimiter\<close>.
\<close>

datatype delimiter =
  ZeroByte baseDelimiter
| FixedLengthByte baseDelimiter
| MultiByte baseDelimiter

fun base :: "delimiter \<Rightarrow> baseDelimiter" where
  "base (ZeroByte b) = b"
| "base (FixedLengthByte b) = b"
| "base (MultiByte b) = b"

fun on_base :: "(baseDelimiter \<Rightarrow> baseDelimiter) \<Rightarrow> delimiter \<Rightarrow> delimiter" where
  "on_base f (ZeroByte b) = ZeroByte (f b)"
| "on_base f (FixedLengthByte b) = FixedLengthByte (f b)"
| "on_base f (MultiByte b) = MultiByte (f b)"

datatype kind = Anchor | FixedLength | Substring

fun kind_of :: "delimiter \<Rightarrow> kind" where
  "kind_of (ZeroByte b) = Anchor"
| "kind_of (FixedLengthByte b) = FixedLength"
| "kind_of (MultiByte b) = Substring"

subsection \<open>The methods of \<^verbatim>\<open>baseDelimiter\<close>\<close>

definition baseDelimiter_IndexOf :: "baseDelimiter \<Rightarrow> string \<Rightarrow> go_int \<Rightarrow> go_int" where
  "baseDelimiter_IndexOf b haystack offset = offset + length_fld b"

definition baseDelimiter_Len :: "baseDelimiter \<Rightarrow> go_int" where
  "baseDelimiter_Len b = length_fld b"

definition baseDelimiter_Delimiter :: "baseDelimiter \<Rightarrow> string" where
  "baseDelimiter_Delimiter b = needle b"

definition baseDelimiter_IsGreedy :: "baseDelimiter \<Rightarrow> bool" where
  "baseDelimiter_IsGreedy b = greedy b"

definition baseDelimiter_MarkGreedy :: "baseDelimiter \<Rightarrow> baseDelimiter" where
  "baseDelimiter_MarkGreedy b = b\<lparr>greedy := True\<rparr>"

definition baseDelimiter_Next :: "baseDelimiter \<Rightarrow> addr option" where
  "baseDelimiter_Next b = next_fld b"

definition baseDelimiter_SetNext :: "baseDelimiter \<Rightarrow> addr option \<Rightarrow> baseDelimiter" where
  "baseDelimiter_SetNext b d = b\<lparr>next_fld := d\<rparr>"

subsection \<open>The standard library: \<^verbatim>\<open>strings.Index\<close> and \<^verbatim>\<open>fmt.Sprintf\<close>\<close>

text \<open>
  \<^verbatim>\<open>strings.Index(s, substr)\<close> is Go's library function: the index of the first instance
  of \<^verbatim>\<open>substr\<close> in \<^verbatim>\<open>s\<close>, or -1 when there is none. It is modelled by the scan from
  left to right that its documentation describes; \<open>index_scan s substr k\<close> looks at the
  suffix \<open>s\<close> of the text, which starts at index \<open>k\<close>.
\<close>

fun index_scan :: "string \<Rightarrow> string \<Rightarrow> nat \<Rightarrow> nat option" where
  "index_scan [] substr k = (if substr = [] then Some k else None)"
| "index_scan (c # cs) substr k =
     (if take (length substr) (c # cs) = substr then Some k
      else index_scan cs substr (Suc k))"

definition strings_Index :: "string \<Rightarrow> string \<Rightarrow> go_int" where
  "strings_Index s substr = (case index_scan s substr 0 of None \<Rightarrow> - 1 | Some k \<Rightarrow> of_nat k)"

text \<open>The verb \<^verbatim>\<open>%d\<close> of \<^verbatim>\<open>fmt.Sprintf\<close> on an \<^verbatim>\<open>int\<close>: the signed decimal numeral.\<close>

fun digits10 :: "nat \<Rightarrow> string" where
  "digits10 n =
     (if n < 10 then [char_of (48 + n)]
      else digits10 (n div 10) @ [char_of (48 + n mod 10)])"

declare digits10.simps [simp del]

definition fmt_d :: "go_int \<Rightarrow> string" where
  "fmt_d i = (if i <s 0 then CHR ''-'' # digits10 (nat (- sint i)) else digits10 (nat (sint i)))"

subsection \<open>The methods of the three kinds\<close>

definition zeroByte_String :: "baseDelimiter \<Rightarrow> string" where
  "zeroByte_String z = ''delimiter: zerobyte''"

definition fixedLengthByte_String :: "baseDelimiter \<Rightarrow> string" where
  "fixedLengthByte_String f =
     ''delimiter: fixedlengthbyte (len: '' @ fmt_d (length_fld f) @ '')''"

text \<open>
  \<^verbatim>\<open>haystack[offset:]\<close> panics unless \<^verbatim>\<open>0 <= offset <= len(haystack)\<close>; Go checks the
  bounds of every slice expression at run time.
\<close>

definition multiByte_IndexOf :: "baseDelimiter \<Rightarrow> string \<Rightarrow> go_int \<Rightarrow> panic + go_int" where
  "multiByte_IndexOf m haystack offset =
     (if offset <s 0 \<or> int (length haystack) < sint offset then Inl SliceBoundsOutOfRange
      else let i = strings_Index (drop (nat (sint offset)) haystack) (needle m)
           in if i \<noteq> - 1 then Inr (i + offset) else Inr (- 1))"

definition multiByte_Len :: "baseDelimiter \<Rightarrow> go_int" where
  "multiByte_Len m = of_nat (length (needle m))"

definition multiByte_String :: "baseDelimiter \<Rightarrow> string" where
  "multiByte_String m =
     ''delimiter: multibyte (match: '' @ [CHR 0x27] @ needle m @ [CHR 0x27] @ '', len: ''
       @ fmt_d (multiByte_Len m) @ '')''"

subsection \<open>The interface \<^verbatim>\<open>delimiter\<close>: dispatch on the dynamic type\<close>

text \<open>
  \<^verbatim>\<open>multiByte\<close> overrides \<^verbatim>\<open>IndexOf\<close> and \<^verbatim>\<open>Len\<close>; every kind has a \<^verbatim>\<open>String\<close> of its own;
  all other methods are promoted from the embedded \<^verbatim>\<open>baseDelimiter\<close>.
\<close>

fun IndexOf :: "delimiter \<Rightarrow> string \<Rightarrow> go_int \<Rightarrow> panic + go_int" where
  "IndexOf (ZeroByte b) haystack offset = Inr (baseDelimiter_IndexOf b haystack offset)"
| "IndexOf (FixedLengthByte b) haystack offset = Inr (baseDelimiter_IndexOf b haystack offset)"
| "IndexOf (MultiByte b) haystack offset = multiByte_IndexOf b haystack offset"

fun Len :: "delimiter \<Rightarrow> go_int" where
  "Len (ZeroByte b) = baseDelimiter_Len b"
| "Len (FixedLengthByte b) = baseDelimiter_Len b"
| "Len (MultiByte b) = multiByte_Len b"

fun String_d :: "delimiter \<Rightarrow> string" where
  "String_d (ZeroByte b) = zeroByte_String b"
| "String_d (FixedLengthByte b) = fixedLengthByte_String b"
| "String_d (MultiByte b) = multiByte_String b"

definition Delimiter :: "delimiter \<Rightarrow> string" where
  "Delimiter d = baseDelimiter_Delimiter (base d)"

definition IsGreedy :: "delimiter \<Rightarrow> bool" where
  "IsGreedy d = baseDelimiter_IsGreedy (base d)"

definition MarkGreedy :: "delimiter \<Rightarrow> delimiter" where
  "MarkGreedy d = on_base baseDelimiter_MarkGreedy d"

definition Next :: "delimiter \<Rightarrow> addr option" where
  "Next d = baseDelimiter_Next (base d)"

definition SetNext :: "delimiter \<Rightarrow> addr option \<Rightarrow> delimiter" where
  "SetNext d n = on_base (\<lambda>b. baseDelimiter_SetNext b n) d"

text \<open>
  The value \<^verbatim>\<open>newDelimiter\<close> builds, before it takes its address: \<^verbatim>\<open>zeroByte{}\<close> for the
  empty needle, \<^verbatim>\<open>multiByte{baseDelimiter{needle: needle}}\<close> otherwise.
\<close>

definition newDelimiter_value :: "string \<Rightarrow> delimiter" where
  "newDelimiter_value n =
     (if length n = 0 then ZeroByte zero_baseDelimiter
      else MultiByte (zero_baseDelimiter\<lparr>needle := n\<rparr>))"

subsection \<open>The store\<close>

text \<open>
  The objects allocated so far, in the order of their allocation; an address is an index
  into the list. \<^verbatim>\<open>&T{...}\<close> allocates a fresh object and yields its address. An address
  that was never allocated does not occur in a Go program; a method call on it is treated
  like a call on a nil pointer.
\<close>

type_synonym heap = "delimiter list"

definition deref :: "heap \<Rightarrow> addr \<Rightarrow> delimiter option" where
  "deref h a = (if a < length h then Some (h ! a) else None)"

definition alloc :: "heap \<Rightarrow> delimiter \<Rightarrow> addr \<times> heap" where
  "alloc h d = (length h, h @ [d])"

definition newDelimiter :: "heap \<Rightarrow> string \<Rightarrow> addr \<times> heap" where
  "newDelimiter h n = alloc h (newDelimiter_value n)"

text \<open>
  A method call through a pointer. \<open>invoke\<close> is the call on the object itself: the value
  returned and the object as the method leaves it. \<open>call_method\<close> reads the receiver from
  the store and writes it back.
\<close>

datatype call =
  CallIndexOf string go_int
| CallLen
| CallString
| CallDelimiter
| CallIsGreedy
| CallMarkGreedy
| CallNext
| CallSetNext "addr option"

datatype retval =
  RInt go_int
| RString string
| RBool bool
| RDelimiter "addr option"
| RUnit

fun invoke :: "delimiter \<Rightarrow> call \<Rightarrow> panic + (retval \<times> delimiter)" where
  "invoke d (CallIndexOf haystack offset) =
     (case IndexOf d haystack offset of Inl e \<Rightarrow> Inl e | Inr i \<Rightarrow> Inr (RInt i, d))"
| "invoke d CallLen = Inr (RInt (Len d), d)"
| "invoke d CallString = Inr (RString (String_d d), d)"
| "invoke d CallDelimiter = Inr (RString (Delimiter d), d)"
| "invoke d CallIsGreedy = Inr (RBool (IsGreedy d), d)"
| "invoke d CallMarkGreedy = Inr (RUnit, MarkGreedy d)"
| "invoke d CallNext = Inr (RDelimiter (Next d), d)"
| "invoke d (CallSetNext n) = Inr (RUnit, SetNext d n)"

definition call_method :: "heap \<Rightarrow> addr \<Rightarrow> call \<Rightarrow> panic + (retval \<times> heap)" where
  "call_method h a c =
     (case deref h a of
        None \<Rightarrow> Inl NilPointerDereference
      | Some d \<Rightarrow>
          (case invoke d c of
             Inl e \<Rightarrow> Inl e
           | Inr (v, d') \<Rightarrow> Inr (v, h[a := d'])))"

text \<open>
  The store after a call, and after a sequence of calls on any objects. A call that
  panics has written nothing, so it leaves the store as it was.
\<close>

definition store_after :: "heap \<Rightarrow> addr \<times> call \<Rightarrow> heap" where
  "store_after h ac =
     (case call_method h (fst ac) (snd ac) of Inl e \<Rightarrow> h | Inr (v, h') \<Rightarrow> h')"

definition store_after_all :: "heap \<Rightarrow> (addr \<times> call) list \<Rightarrow> heap" where
  "store_after_all h cs = foldl store_after h cs"

text \<open>
  Modelled from the spec: the driver's loop over a chain is not among the sources. It
  walks the chain by repeated \<^verbatim>\<open>Next()\<close> until \<^verbatim>\<open>nil\<close>, as in
  \<^verbatim>\<open>for d := first; d != nil; d = d.Next()\<close>; the model collects the addresses visited.
  A chain with a cycle is walked for ever: the result is \<open>None\<close>.
\<close>

partial_function (option) traverse :: "heap \<Rightarrow> addr option \<Rightarrow> addr list option" where
  "traverse h d =
     (case d of
        None \<Rightarrow> Some []
      | Some a \<Rightarrow>
          (case deref h a of
             None \<Rightarrow> None
           | Some x \<Rightarrow> Option.bind (traverse h (Next x)) (\<lambda>r. Some (a # r))))"

text \<open>Where a needle occurs: \<^verbatim>\<open>H[i:i+len(N)] == N\<close>, false when the slice leaves \<open>H\<close>.\<close>

definition occurs_at :: "string \<Rightarrow> string \<Rightarrow> nat \<Rightarrow> bool" where
  "occurs_at H N i = (i + length N \<le> length H \<and> take (length N) (drop i H) = N)"

text \<open>
  What no method assigns: the dynamic type, the needle and the \<^verbatim>\<open>length\<close> field.
\<close>

definition fixed_part :: "delimiter \<Rightarrow> kind \<times> string \<times> go_int" where
  "fixed_part d = (kind_of d, needle (base d), length_fld (base d))"

text \<open>The methods that assign no field: all but \<^verbatim>\<open>MarkGreedy\<close> and \<^verbatim>\<open>SetNext\<close>.\<close>

fun is_observer :: "call \<Rightarrow> bool" where
  "is_observer CallMarkGreedy = False"
| "is_observer (CallSetNext n) = False"
| "is_observer c = True"

section \<open>Properties\<close>

lemma base_on_base: "base (on_base f d) = f (base d)"
  by (cases d) simp_all

subsection \<open>Signed reading of small words\<close>

lemma sint_of_nat_small:
  assumes "k < 2 ^ 63"
  shows "sint (of_nat k :: go_int) = int k"
proof -
  have "(of_nat k :: go_int) = word_of_int (int k)" by simp
  then have "sint (of_nat k :: go_int) = signed_take_bit 63 (int k)"
    by (simp only: sint_sbintrunc') simp
  also have "\<dots> = int k"
  proof -
    have "int k < int (2 ^ 63)" using assms by (simp only: of_nat_less_iff)
    then have "int k < 2 ^ 63" by simp
    moreover have "- (2 ^ 63) \<le> int k" by (rule order_trans [of _ 0]) simp_all
    ultimately show ?thesis by (simp add: signed_take_bit_int_eq_self_iff)
  qed
  finally show ?thesis .
qed

lemma sint_add_small:
  assumes "- (2 ^ 63) \<le> sint (a :: go_int) + sint (b :: go_int)"
    and "sint a + sint b < 2 ^ 63"
  shows "sint (a + b) = sint a + sint b"
  using assms by (simp add: sint_word_add signed_take_bit_int_eq_self_iff)

subsection \<open>The scan finds the first occurrence\<close>

lemma occurs_at_Nil: "occurs_at [] N i = (N = [] \<and> i = 0)"
  by (auto simp: occurs_at_def)

lemma occurs_at_Cons_0: "occurs_at (c # cs) N 0 = (take (length N) (c # cs) = N)"
  unfolding occurs_at_def
  by (metis add_0 drop0 length_take min.absorb_iff2 min.commute)

lemma occurs_at_Cons_Suc: "occurs_at (c # cs) N (Suc i) = occurs_at cs N i"
  by (simp add: occurs_at_def)

lemma occurs_at_drop:
  "n \<le> length H \<Longrightarrow> occurs_at (drop n H) N i = occurs_at H N (n + i)"
  by (auto simp: occurs_at_def add.commute)

lemma first_at_head:
  assumes "occurs_at (c # cs) N 0"
  shows "(\<exists>i. r = k + i \<and> occurs_at (c # cs) N i \<and> (\<forall>j<i. \<not> occurs_at (c # cs) N j))
           \<longleftrightarrow> r = k"
proof
  assume "\<exists>i. r = k + i \<and> occurs_at (c # cs) N i \<and> (\<forall>j<i. \<not> occurs_at (c # cs) N j)"
  then obtain i where i: "r = k + i" "\<forall>j<i. \<not> occurs_at (c # cs) N j" by blast
  with assms have "i = 0" by (cases i) auto
  with i show "r = k" by simp
next
  assume "r = k"
  with assms show "\<exists>i. r = k + i \<and> occurs_at (c # cs) N i \<and> (\<forall>j<i. \<not> occurs_at (c # cs) N j)"
    by (intro exI [of _ 0]) simp
qed

lemma first_in_tail:
  assumes no0: "\<not> occurs_at (c # cs) N 0"
  shows "(\<exists>i. r = k + i \<and> occurs_at (c # cs) N i \<and> (\<forall>j<i. \<not> occurs_at (c # cs) N j))
       \<longleftrightarrow> (\<exists>i. r = Suc k + i \<and> occurs_at cs N i \<and> (\<forall>j<i. \<not> occurs_at cs N j))"
    (is "?L \<longleftrightarrow> ?R")
proof
  assume ?L
  then obtain i where i: "r = k + i" "occurs_at (c # cs) N i" "\<forall>j<i. \<not> occurs_at (c # cs) N j"
    by blast
  with no0 obtain i' where i': "i = Suc i'" by (cases i) auto
  have "\<forall>j<i'. \<not> occurs_at cs N j"
    using i(3) i' by (metis Suc_less_eq occurs_at_Cons_Suc)
  with i i' show ?R by (auto simp: occurs_at_Cons_Suc)
next
  assume ?R
  then obtain i where i: "r = Suc k + i" "occurs_at cs N i" "\<forall>j<i. \<not> occurs_at cs N j"
    by blast
  have "\<forall>j<Suc i. \<not> occurs_at (c # cs) N j"
  proof (intro allI impI)
    fix j assume "j < Suc i"
    then show "\<not> occurs_at (c # cs) N j"
      using no0 i(3) by (cases j) (auto simp: occurs_at_Cons_Suc)
  qed
  with i show ?L
    by (intro exI [of _ "Suc i"]) (simp add: occurs_at_Cons_Suc)
qed

lemma index_scan_Some:
  "index_scan s N k = Some r \<longleftrightarrow>
     (\<exists>i. r = k + i \<and> occurs_at s N i \<and> (\<forall>j<i. \<not> occurs_at s N j))"
proof (induction s arbitrary: k)
  case Nil
  then show ?case by (auto simp: occurs_at_Nil)
next
  case (Cons c cs)
  show ?case
  proof (cases "take (length N) (c # cs) = N")
    case True
    then have "occurs_at (c # cs) N 0" by (simp add: occurs_at_Cons_0)
    from first_at_head [OF this] True show ?thesis by auto
  next
    case False
    then have "\<not> occurs_at (c # cs) N 0" by (simp add: occurs_at_Cons_0)
    from first_in_tail [OF this] False Cons.IH [of "Suc k"] show ?thesis by simp
  qed
qed

lemma index_scan_None: "index_scan s N k = None \<longleftrightarrow> (\<forall>i. \<not> occurs_at s N i)"
proof (induction s arbitrary: k)
  case Nil
  then show ?case by (auto simp: occurs_at_Nil)
next
  case (Cons c cs)
  have "(\<forall>i. \<not> occurs_at (c # cs) N i)
          \<longleftrightarrow> \<not> occurs_at (c # cs) N 0 \<and> (\<forall>i. \<not> occurs_at cs N i)"
    by (metis occurs_at_Cons_Suc not0_implies_Suc)
  with Cons.IH [of "Suc k"] show ?case by (simp add: occurs_at_Cons_0)
qed

subsection \<open>\<^verbatim>\<open>multiByte.IndexOf\<close> on a valid offset\<close>

lemma strings_Index_first:
  assumes "go_string s" and "occurs_at s N i" and "\<forall>j<i. \<not> occurs_at s N j"
  shows "strings_Index s N = of_nat i" and "strings_Index s N \<noteq> - 1"
proof -
  have "index_scan s N 0 = Some i"
    using assms(2,3) by (simp add: index_scan_Some)
  then show eq: "strings_Index s N = of_nat i" by (simp add: strings_Index_def)
  have "i \<le> length s" using assms(2) by (simp add: occurs_at_def)
  with assms(1) have "i < 2 ^ 63" by (simp add: go_string_def)
  then have "sint (of_nat i :: go_int) = int i" by (rule sint_of_nat_small)
  then have "sint (of_nat i :: go_int) \<noteq> sint (- 1 :: go_int)" by simp
  then show "strings_Index s N \<noteq> - 1" unfolding eq by metis
qed

lemma strings_Index_absent:
  assumes "\<forall>i. \<not> occurs_at s N i"
  shows "strings_Index s N = - 1"
  using assms by (simp add: strings_Index_def index_scan_None [THEN iffD2])

lemma offset_of_nat:
  assumes "0 \<le>s (offset :: go_int)"
  shows "of_nat (nat (sint offset)) = offset"
proof -
  from assms have "0 \<le> sint offset" by (simp add: word_sle_eq)
  then have "(of_nat (nat (sint offset)) :: go_int) = of_int (sint offset)"
    by (rule of_nat_nat)
  then show ?thesis by simp
qed

lemma multiByte_IndexOf_spec:
  assumes H: "go_string H" and lo: "0 \<le>s offset" and hi: "sint offset \<le> int (length H)"
  shows "multiByte_IndexOf m H offset =
           (if \<exists>i\<ge>nat (sint offset). occurs_at H (needle m) i
            then Inr (of_nat (LEAST i. nat (sint offset) \<le> i \<and> occurs_at H (needle m) i))
            else Inr (- 1))"
proof -
  define n where "n = nat (sint offset)"
  define N where "N = needle m"
  from lo have lo': "0 \<le> sint offset" by (simp add: word_sle_eq)
  with hi have n: "n \<le> length H" by (simp add: n_def)
  from lo have nolt: "\<not> offset <s 0" by (simp add: word_sle_eq word_sless_alt)
  from hi have nogt: "\<not> int (length H) < sint offset" by simp
  have body: "multiByte_IndexOf m H offset =
      (let i = strings_Index (drop n H) N in if i \<noteq> - 1 then Inr (i + offset) else Inr (- 1))"
    using nolt nogt by (simp add: multiByte_IndexOf_def n_def N_def)
  have gs: "go_string (drop n H)" using H by (simp add: go_string_def)
  show ?thesis
  proof (cases "\<exists>i\<ge>n. occurs_at H N i")
    case True
    define L where "L = (LEAST i. n \<le> i \<and> occurs_at H N i)"
    from True obtain i0 where "n \<le> i0 \<and> occurs_at H N i0" by blast
    then have L: "n \<le> L \<and> occurs_at H N L" unfolding L_def by (rule LeastI)
    have least: "\<not> (n \<le> j \<and> occurs_at H N j)" if "j < L" for j
      using that unfolding L_def by (rule not_less_Least)
    have "occurs_at (drop n H) N (L - n)"
      using L n by (simp add: occurs_at_drop)
    moreover have "\<forall>j<L - n. \<not> occurs_at (drop n H) N j"
    proof (intro allI impI)
      fix j assume "j < L - n"
      then have "n + j < L" by simp
      from least [OF this] show "\<not> occurs_at (drop n H) N j"
        using n by (simp add: occurs_at_drop)
    qed
    ultimately have "strings_Index (drop n H) N = of_nat (L - n)"
      and "strings_Index (drop n H) N \<noteq> - 1"
      using strings_Index_first [OF gs] by blast+
    with body have "multiByte_IndexOf m H offset = Inr (of_nat (L - n) + offset)"
      by (simp add: Let_def)
    also have "of_nat (L - n) + offset = (of_nat (L - n) + of_nat n :: go_int)"
      using offset_of_nat [OF lo] by (simp add: n_def)
    also have "\<dots> = of_nat L" using L by (simp flip: of_nat_add)
    finally show ?thesis using True by (simp add: L_def n_def N_def)
  next
    case False
    then have "\<forall>i. \<not> occurs_at (drop n H) N i"
      using n by (simp add: occurs_at_drop)
    then have "strings_Index (drop n H) N = - 1" by (rule strings_Index_absent)
    with body have "multiByte_IndexOf m H offset = Inr (- 1)" by simp
    moreover from False have "\<not> (\<exists>i\<ge>nat (sint offset). occurs_at H (needle m) i)"
      by (simp add: n_def N_def)
    ultimately show ?thesis by (simp only: if_False)
  qed
qed

lemma least_occurrence_small:
  assumes "go_string H" and "n \<le> i" and "occurs_at H N i"
  shows "sint (of_nat (LEAST i. n \<le> i \<and> occurs_at H N i) :: go_int)
           = int (LEAST i. n \<le> i \<and> occurs_at H N i)"
proof -
  have "n \<le> i \<and> occurs_at H N i" using assms by simp
  then have "occurs_at H N (LEAST i. n \<le> i \<and> occurs_at H N i)"
    by (rule LeastI [THEN conjunct2])
  then have "(LEAST i. n \<le> i \<and> occurs_at H N i) \<le> length H" by (simp add: occurs_at_def)
  with assms(1) have "(LEAST i. n \<le> i \<and> occurs_at H N i) < 2 ^ 63" by (simp add: go_string_def)
  then show ?thesis by (rule sint_of_nat_small)
qed

subsection \<open>What a call leaves as it is\<close>

lemma kind_of_on_base: "kind_of (on_base f d) = kind_of d"
  by (cases d) simp_all

lemma fixed_part_MarkGreedy: "fixed_part (MarkGreedy d) = fixed_part d"
  by (simp add: fixed_part_def MarkGreedy_def baseDelimiter_MarkGreedy_def base_on_base kind_of_on_base)

lemma fixed_part_SetNext: "fixed_part (SetNext d n) = fixed_part d"
  by (simp add: fixed_part_def SetNext_def baseDelimiter_SetNext_def base_on_base kind_of_on_base)

lemma invoke_observer:
  assumes "is_observer c" and "invoke d c = Inr (v, d')"
  shows "d' = d"
  using assms by (cases c) (auto split: sum.splits)

lemma invoke_fixed_part:
  assumes "invoke d c = Inr (v, d')"
  shows "fixed_part d' = fixed_part d"
  using assms
  by (cases c) (auto simp: fixed_part_MarkGreedy fixed_part_SetNext split: sum.splits)

lemma invoke_greedy:
  assumes "invoke d c = Inr (v, d')" and "IsGreedy d"
  shows "IsGreedy d'"
  using assms
  by (cases c)
    (auto simp: IsGreedy_def baseDelimiter_IsGreedy_def MarkGreedy_def SetNext_def
      baseDelimiter_MarkGreedy_def baseDelimiter_SetNext_def base_on_base split: sum.splits)

lemma store_after_eq:
  "store_after h (a, c) =
     (if a < length h
      then (case invoke (h ! a) c of Inl e \<Rightarrow> h | Inr r \<Rightarrow> h[a := snd r])
      else h)"
  by (simp add: store_after_def call_method_def deref_def split: sum.splits prod.splits)

lemma length_store_after: "length (store_after h ac) = length h"
  by (cases ac) (simp add: store_after_eq split: sum.splits)

lemma length_store_after_all: "length (store_after_all h cs) = length h"
  unfolding store_after_all_def
  by (induction cs arbitrary: h) (simp_all add: length_store_after)

lemma store_after_all_Nil: "store_after_all h [] = h"
  by (simp add: store_after_all_def)

lemma store_after_all_Cons: "store_after_all h (ac # cs) = store_after_all (store_after h ac) cs"
  by (simp add: store_after_all_def)

lemma store_after_fixed_part:
  assumes "x < length h"
  shows "fixed_part (store_after h ac ! x) = fixed_part (h ! x)"
proof (cases ac)
  case (Pair a c)
  show ?thesis
  proof (cases "invoke (h ! a) c")
    case (Inl e)
    with Pair show ?thesis by (simp add: store_after_eq)
  next
    case (Inr r)
    then have "invoke (h ! a) c = Inr (fst r, snd r)" by simp
    then have "fixed_part (snd r) = fixed_part (h ! a)" by (rule invoke_fixed_part)
    with Pair Inr assms show ?thesis by (simp add: store_after_eq nth_list_update)
  qed
qed

lemma store_after_greedy:
  assumes "x < length h" and "IsGreedy (h ! x)"
  shows "IsGreedy (store_after h ac ! x)"
proof (cases ac)
  case (Pair a c)
  show ?thesis
  proof (cases "invoke (h ! a) c")
    case (Inl e)
    with Pair assms show ?thesis by (simp add: store_after_eq)
  next
    case (Inr r)
    then have "invoke (h ! a) c = Inr (fst r, snd r)" by simp
    then have "IsGreedy (h ! a) \<Longrightarrow> IsGreedy (snd r)" by (rule invoke_greedy)
    with Pair Inr assms show ?thesis by (auto simp: store_after_eq nth_list_update)
  qed
qed

lemma store_after_all_fixed_part:
  "x < length h \<Longrightarrow> fixed_part (store_after_all h cs ! x) = fixed_part (h ! x)"
proof (induction cs arbitrary: h)
  case Nil
  show ?case by (simp add: store_after_all_Nil)
next
  case (Cons ac cs)
  from Cons.prems have "x < length (store_after h ac)" by (simp add: length_store_after)
  from Cons.IH [OF this] Cons.prems show ?case
    by (simp add: store_after_all_Cons store_after_fixed_part)
qed

lemma store_after_all_greedy:
  "x < length h \<Longrightarrow> IsGreedy (h ! x) \<Longrightarrow> IsGreedy (store_after_all h cs ! x)"
proof (induction cs arbitrary: h)
  case Nil
  then show ?case by (simp add: store_after_all_Nil)
next
  case (Cons ac cs)
  from Cons.prems have "x < length (store_after h ac)" and "IsGreedy (store_after h ac ! x)"
    by (simp_all add: length_store_after store_after_greedy)
  from Cons.IH [OF this] show ?case by (simp add: store_after_all_Cons)
qed

lemma Len_fixed_part:
  "Len d = (case fixed_part d of (Substring, n, l) \<Rightarrow> of_nat (length n) | (k, n, l) \<Rightarrow> l)"
  by (cases d) (simp_all add: fixed_part_def baseDelimiter_Len_def multiByte_Len_def)

lemma deref_newDelimiter:
  assumes "newDelimiter h n = (a, h')"
  shows "a = length h" and "length h' = Suc (length h)" and "h' ! a = newDelimiter_value n"
    and "deref h' a = Some (newDelimiter_value n)"
    and "\<And>x. x < length h \<Longrightarrow> h' ! x = h ! x"
  using assms by (auto simp: newDelimiter_def alloc_def deref_def nth_append)

lemma fixed_part_newDelimiter_value:
  "fixed_part (newDelimiter_value n) = (if n = [] then Anchor else Substring, n, 0)"
  by (simp add: fixed_part_def newDelimiter_value_def zero_baseDelimiter_def)

subsection \<open>Objects of the factory, and the arithmetic of the base method\<close>

lemma factory_object_after_calls:
  assumes "newDelimiter h n = (a, h')"
  shows "\<exists>d. deref (store_after_all h' cs) a = Some d
           \<and> fixed_part d = (if n = [] then Anchor else Substring, n, 0)"
proof -
  from deref_newDelimiter [OF assms]
  have a: "a < length h'" and obj: "h' ! a = newDelimiter_value n" by simp_all
  from a have "deref (store_after_all h' cs) a = Some (store_after_all h' cs ! a)"
    by (simp add: deref_def length_store_after_all)
  moreover from store_after_all_fixed_part [OF a, of cs] obj
  have "fixed_part (store_after_all h' cs ! a) = (if n = [] then Anchor else Substring, n, 0)"
    by (simp add: fixed_part_newDelimiter_value)
  ultimately show ?thesis by blast
qed

lemma IndexOf_Anchor:
  assumes "fixed_part d = (Anchor, n, l)"
  shows "IndexOf d H offset = Inr (offset + l)"
  using assms by (cases d) (simp_all add: fixed_part_def baseDelimiter_IndexOf_def)

lemma add_nonneg_not_minus_one:
  assumes "0 \<le>s (a :: go_int)" and "0 \<le>s (b :: go_int)"
  shows "a + b \<noteq> - 1"
proof
  assume "a + b = - 1"
  then have "a = - 1 - b" by (simp add: eq_diff_eq)
  then have "sint a = signed_take_bit 63 (- 1 - sint b)" by (simp add: sint_word_diff)
  moreover have "0 \<le> sint b" using assms(2) by (simp add: word_sle_eq)
  moreover have "sint b < 2 ^ 63" using sint_lt [of b] by simp
  ultimately have "sint a = - 1 - sint b" by (simp add: signed_take_bit_int_eq_self_iff)
  with \<open>0 \<le> sint b\<close> have "sint a < 0" by simp
  with assms(1) show False by (simp add: word_sle_eq)
qed

lemma add_nonneg_small:
  assumes "0 \<le>s (a :: go_int)" and "0 \<le>s (b :: go_int)" and "sint a + sint b < 2 ^ 63"
  shows "0 \<le>s a + b"
proof -
  from assms(1,2) have nn: "0 \<le> sint a" "0 \<le> sint b" by (simp_all add: word_sle_eq)
  then have "0 \<le> sint a + sint b" by simp
  then have "- (2 ^ 63) \<le> sint a + sint b" by (rule order_trans [rotated]) simp
  from sint_add_small [OF this assms(3)] nn show ?thesis by (simp add: word_sle_eq)
qed

subsection \<open>The greedy flag\<close>

lemma IsGreedy_MarkGreedy: "IsGreedy (MarkGreedy d)"
  by (simp add: IsGreedy_def MarkGreedy_def baseDelimiter_IsGreedy_def baseDelimiter_MarkGreedy_def
      base_on_base)

lemma MarkGreedy_twice: "MarkGreedy (MarkGreedy d) = MarkGreedy d"
  by (cases d) (simp_all add: MarkGreedy_def baseDelimiter_MarkGreedy_def)

lemma IsGreedy_MarkGreedy_funpow: "0 < k \<Longrightarrow> IsGreedy ((MarkGreedy ^^ k) d)"
  by (cases k) (simp_all add: IsGreedy_MarkGreedy)

lemma not_IsGreedy_newDelimiter_value: "\<not> IsGreedy (newDelimiter_value n)"
  by (simp add: IsGreedy_def baseDelimiter_IsGreedy_def newDelimiter_value_def zero_baseDelimiter_def)

lemma store_after_MarkGreedy:
  assumes "deref h a = Some d"
  shows "store_after h (a, CallMarkGreedy) = h[a := MarkGreedy d]"
  using assms by (simp add: store_after_def call_method_def)

lemma deref_Some: "deref h a = Some d \<longleftrightarrow> a < length h \<and> h ! a = d"
  by (auto simp: deref_def)

lemma greedy_after_calls:
  assumes "deref h a = Some d" and "IsGreedy d"
  shows "\<exists>x. deref (store_after_all h cs) a = Some x \<and> IsGreedy x"
  using assms store_after_all_greedy [of a h cs]
  by (simp add: deref_Some length_store_after_all)

lemma greedy_after_marking:
  assumes "deref h a = Some d" and "0 < k"
  shows "\<exists>x. deref (store_after_all h (replicate k (a, CallMarkGreedy))) a = Some x \<and> IsGreedy x"
proof -
  from assms(2) obtain k' where k: "k = Suc k'" by (cases k) auto
  from assms(1) have "deref (store_after h (a, CallMarkGreedy)) a = Some (MarkGreedy d)"
    by (simp add: store_after_MarkGreedy deref_Some)
  from greedy_after_calls [OF this IsGreedy_MarkGreedy] k show ?thesis
    by (simp add: store_after_all_Cons)
qed

subsection \<open>Frames of the methods\<close>

lemma deref_store_after_other:
  assumes "x \<noteq> a"
  shows "deref (store_after h (a, c)) x = deref h x"
  using assms by (simp add: deref_def length_store_after store_after_eq split: sum.splits)

lemma store_after_observer:
  assumes "is_observer c"
  shows "store_after h (a, c) = h"
proof (cases "a < length h")
  case True
  show ?thesis
  proof (cases "invoke (h ! a) c")
    case (Inl e)
    with True show ?thesis by (simp add: store_after_eq)
  next
    case (Inr r)
    then have "invoke (h ! a) c = Inr (fst r, snd r)" by simp
    from invoke_observer [OF assms this] Inr True show ?thesis by (simp add: store_after_eq)
  qed
next
  case False
  then show ?thesis by (simp add: store_after_eq)
qed

lemma base_MarkGreedy: "base (MarkGreedy d) = (base d)\<lparr>greedy := True\<rparr>"
  by (simp add: MarkGreedy_def baseDelimiter_MarkGreedy_def base_on_base)

lemma base_SetNext: "base (SetNext d n) = (base d)\<lparr>next_fld := n\<rparr>"
  by (simp add: SetNext_def baseDelimiter_SetNext_def base_on_base)

lemma kind_of_MarkGreedy: "kind_of (MarkGreedy d) = kind_of d"
  by (simp add: MarkGreedy_def kind_of_on_base)

lemma kind_of_SetNext: "kind_of (SetNext d n) = kind_of d"
  by (simp add: SetNext_def kind_of_on_base)

lemma Len_unchanged: "fixed_part d' = fixed_part d \<Longrightarrow> Len d' = Len d"
  by (simp add: Len_fixed_part)

subsection \<open>Links and chains\<close>

lemma traverse_nil: "traverse h None = Some []"
  by (subst traverse.simps) simp

lemma traverse_step:
  assumes "deref h a = Some x"
  shows "traverse h (Some a) = Option.bind (traverse h (Next x)) (\<lambda>r. Some (a # r))"
  using assms by (subst traverse.simps) simp

lemma traverse_three:
  assumes "deref s A = Some x" and "Next x = Some B"
    and "deref s B = Some y" and "Next y = Some C"
    and "deref s C = Some z" and "Next z = None"
  shows "traverse s (Some A) = Some [A, B, C]"
  by (simp add: traverse_step [OF assms(1)] traverse_step [OF assms(3)]
      traverse_step [OF assms(5)] assms(2,4,6) traverse_nil)

lemma Next_SetNext: "Next (SetNext d b) = b"
  by (simp add: Next_def baseDelimiter_Next_def base_SetNext)

lemma Next_newDelimiter_value: "Next (newDelimiter_value n) = None"
  by (simp add: Next_def baseDelimiter_Next_def newDelimiter_value_def zero_baseDelimiter_def)

lemma store_after_SetNext:
  assumes "deref h a = Some d"
  shows "store_after h (a, CallSetNext b) = h[a := SetNext d b]"
  using assms by (simp add: store_after_def call_method_def)

lemma call_Next_after_SetNext:
  assumes "deref h a = Some d"
  shows "call_method (store_after h (a, CallSetNext b)) a CallNext
           = Inr (RDelimiter b, store_after h (a, CallSetNext b))"
proof -
  from assms have a: "a < length h" by (simp add: deref_Some)
  then have "deref (h[a := SetNext d b]) a = Some (SetNext d b)" by (simp add: deref_def)
  then have "call_method (h[a := SetNext d b]) a CallNext
      = Inr (RDelimiter b, (h[a := SetNext d b])[a := SetNext d b])"
    by (simp add: call_method_def Next_SetNext)
  then show ?thesis by (simp add: store_after_SetNext [OF assms])
qed

lemma chain_of_three:
  assumes A: "newDelimiter h n1 = (A, h1)" and B: "newDelimiter h1 n2 = (B, h2)"
    and C: "newDelimiter h2 n3 = (C, h3)"
  shows "traverse (store_after_all h3 [(A, CallSetNext (Some B)), (B, CallSetNext (Some C))])
           (Some A) = Some [A, B, C]"
proof -
  let ?a = "newDelimiter_value n1" and ?b = "newDelimiter_value n2" and ?c = "newDelimiter_value n3"
  from A B C have addrs: "A = length h" "B = Suc (length h)" "C = Suc (Suc (length h))"
    and h3: "h3 = h @ [?a, ?b, ?c]"
    by (auto simp: newDelimiter_def alloc_def)
  have dA: "deref h3 A = Some ?a" by (simp add: deref_def h3 addrs nth_append)
  define s1 where "s1 = store_after h3 (A, CallSetNext (Some B))"
  have s1: "s1 = h3[A := SetNext ?a (Some B)]"
    unfolding s1_def by (rule store_after_SetNext [OF dA])
  have dB: "deref s1 B = Some ?b" by (simp add: s1 deref_def h3 addrs nth_append)
  define s2 where "s2 = store_after s1 (B, CallSetNext (Some C))"
  have s2: "s2 = s1[B := SetNext ?b (Some C)]"
    unfolding s2_def by (rule store_after_SetNext [OF dB])
  have "deref s2 A = Some (SetNext ?a (Some B))"
    and "deref s2 B = Some (SetNext ?b (Some C))"
    and "deref s2 C = Some ?c"
    by (simp_all add: s2 s1 deref_def h3 addrs nth_append nth_list_update)
  then have "traverse s2 (Some A) = Some [A, B, C]"
    by (rule traverse_three [OF _ Next_SetNext _ Next_SetNext _ Next_newDelimiter_value])
  then show ?thesis by (simp add: store_after_all_def s2_def s1_def)
qed

lemma chain_of_three_linked:
  assumes A: "deref h A = Some a" and B: "deref h B = Some b" and C: "deref h C = Some c"
    and dist: "A \<noteq> B" "B \<noteq> C" "A \<noteq> C" and last: "Next c = None"
  shows "traverse (store_after_all h [(A, CallSetNext (Some B)), (B, CallSetNext (Some C))])
           (Some A) = Some [A, B, C]"
proof -
  define s1 where "s1 = store_after h (A, CallSetNext (Some B))"
  have s1: "s1 = h[A := SetNext a (Some B)]"
    unfolding s1_def by (rule store_after_SetNext [OF A])
  have dB: "deref s1 B = Some b" using B dist by (simp add: s1 deref_Some)
  define s2 where "s2 = store_after s1 (B, CallSetNext (Some C))"
  have s2: "s2 = s1[B := SetNext b (Some C)]"
    unfolding s2_def by (rule store_after_SetNext [OF dB])
  have "deref s2 A = Some (SetNext a (Some B))"
    and "deref s2 B = Some (SetNext b (Some C))"
    and "deref s2 C = Some c"
    using A B C dist by (simp_all add: s2 s1 deref_Some)
  then have "traverse s2 (Some A) = Some [A, B, C]"
    by (rule traverse_three [OF _ Next_SetNext _ Next_SetNext _ last])
  then show ?thesis by (simp add: store_after_all_def s2_def s1_def)
qed

text \<open>A walk that does not end has no result: an object linked to itself is walked for ever.\<close>

lemma traverse_self_loop:
  assumes x: "deref h a = Some x" and loop: "Next x = Some a"
  shows "traverse h (Some a) = None"
proof (rule ccontr)
  assume "traverse h (Some a) \<noteq> None"
  then obtain r where r: "traverse h (Some a) = Some r" by auto
  have "h' = h \<longrightarrow> d \<noteq> Some a" if "traverse h' d = Some r'" for h' d r'
  proof (rule traverse.raw_induct [where P = "\<lambda>h' d y. h' = h \<longrightarrow> d \<noteq> Some a", OF _ that])
    fix walk :: "heap \<Rightarrow> addr option \<Rightarrow> addr list option" and h' d y
    assume IH: "\<And>s b y. walk s b = Some y \<Longrightarrow> s = h \<longrightarrow> b \<noteq> Some a"
      and step: "(case d of None \<Rightarrow> Some []
         | Some a \<Rightarrow> (case deref h' a of None \<Rightarrow> None
             | Some x \<Rightarrow> Option.bind (walk h' (Next x)) (\<lambda>r. Some (a # r)))) = Some y"
    show "h' = h \<longrightarrow> d \<noteq> Some a"
    proof (intro impI notI)
      assume "h' = h" and "d = Some a"
      with step x loop obtain r'' where "walk h (Some a) = Some r''"
        by (auto simp: bind_eq_Some_conv)
      from IH [OF this] show False by simp
    qed
  qed
  with r show False by blast
qed

section \<open>The claims\<close>

text \<open>
  C1. Substring boundary, valid offset. For every haystack \<open>H\<close> (a Go string) and every
  offset with \<open>0 \<le> offset \<le> len(H)\<close>: when the needle occurs in \<open>H\<close> at some index at or
  after the offset, \<^verbatim>\<open>IndexOf\<close> returns the smallest such index (and the word returned
  reads as that index, so it is not the sentinel); otherwise it returns -1. The needle
  need not even be non-empty for this.
\<close>

theorem multiByte_IndexOf_first_occurrence:
  assumes "go_string H" and "0 \<le>s offset" and "sint offset \<le> int (length H)"
  shows "if \<exists>i\<ge>nat (sint offset). occurs_at H (needle m) i
         then IndexOf (MultiByte m) H offset
                = Inr (of_nat (LEAST i. nat (sint offset) \<le> i \<and> occurs_at H (needle m) i))
              \<and> sint (of_nat (LEAST i. nat (sint offset) \<le> i \<and> occurs_at H (needle m) i) :: go_int)
                = int (LEAST i. nat (sint offset) \<le> i \<and> occurs_at H (needle m) i)
         else IndexOf (MultiByte m) H offset = Inr (- 1)"
proof (cases "\<exists>i\<ge>nat (sint offset). occurs_at H (needle m) i")
  case True
  then obtain i where "nat (sint offset) \<le> i" and "occurs_at H (needle m) i" by blast
  from least_occurrence_small [OF assms(1) this] multiByte_IndexOf_spec [OF assms, of m] True
  show ?thesis by simp
next
  case False
  from multiByte_IndexOf_spec [OF assms, of m] False
  have "IndexOf (MultiByte m) H offset = Inr (- 1)" by (simp only: if_False IndexOf.simps)
  with False show ?thesis by (simp only: if_False)
qed

theorem multiByte_IndexOf_first_occurrence_witness:
  "go_string ''2021-01-01'' \<and> (0 :: go_int) \<le>s 0 \<and> sint (0 :: go_int) \<le> int (length ''2021-01-01'')
   \<and> occurs_at ''2021-01-01'' ''-'' 4
   \<and> IndexOf (MultiByte (zero_baseDelimiter\<lparr>needle := ''-''\<rparr>)) ''2021-01-01'' 0 = Inr 4
   \<and> (LEAST i. nat (sint (0 :: go_int)) \<le> i \<and> occurs_at ''2021-01-01'' ''-'' i) = 4
   \<and> go_string ''abc'' \<and> sint (0 :: go_int) \<le> int (length ''abc'')
   \<and> \<not> (\<exists>i\<ge>nat (sint (0 :: go_int)). occurs_at ''abc'' ''XX'' i)
   \<and> IndexOf (MultiByte (zero_baseDelimiter\<lparr>needle := ''XX''\<rparr>)) ''abc'' 0 = Inr (- 1)"
proof -
  let ?m = "zero_baseDelimiter\<lparr>needle := ''-''\<rparr>"
  let ?L = "LEAST i. nat (sint (0 :: go_int)) \<le> i \<and> occurs_at ''2021-01-01'' (needle ?m) i"
  have g: "go_string ''2021-01-01''" by (simp add: go_string_def)
  have lo: "(0 :: go_int) \<le>s 0" by simp
  have hi: "sint (0 :: go_int) \<le> int (length ''2021-01-01'')" by simp
  have occ: "occurs_at ''2021-01-01'' ''-'' 4" by (simp add: occurs_at_def)
  then have ex: "\<exists>i\<ge>nat (sint (0 :: go_int)). occurs_at ''2021-01-01'' (needle ?m) i"
    by (auto simp: zero_baseDelimiter_def)
  have run: "IndexOf (MultiByte ?m) ''2021-01-01'' 0 = Inr 4"
    by (simp add: multiByte_IndexOf_def strings_Index_def zero_baseDelimiter_def word_sless_alt)
  from multiByte_IndexOf_first_occurrence [OF g lo hi, of ?m] ex
  have "IndexOf (MultiByte ?m) ''2021-01-01'' 0 = Inr (of_nat ?L)"
    and s: "sint (of_nat ?L :: go_int) = int ?L"
    by simp_all
  with run have "(of_nat ?L :: go_int) = 4" by simp
  with s have "?L = 4" by simp
  then have least: "(LEAST i. nat (sint (0 :: go_int)) \<le> i \<and> occurs_at ''2021-01-01'' ''-'' i) = 4"
    by (simp add: zero_baseDelimiter_def)
  let ?x = "zero_baseDelimiter\<lparr>needle := ''XX''\<rparr>"
  have g': "go_string ''abc''" by (simp add: go_string_def)
  have hi': "sint (0 :: go_int) \<le> int (length ''abc'')" by simp
  have run': "IndexOf (MultiByte ?x) ''abc'' 0 = Inr (- 1)"
    by (simp add: multiByte_IndexOf_def strings_Index_def zero_baseDelimiter_def word_sless_alt)
  have "Inr (of_nat k) \<noteq> (Inr (- 1) :: panic + go_int)" if "sint (of_nat k :: go_int) = int k" for k
    using that by (metis Inr_inject sint_n1 of_nat_0_le_iff not_one_le_zero neg_0_le_iff_le)
  with multiByte_IndexOf_first_occurrence [OF g' lo hi', of ?x] run'
  have none: "\<not> (\<exists>i\<ge>nat (sint (0 :: go_int)). occurs_at ''abc'' ''XX'' i)"
    by (auto simp: zero_baseDelimiter_def split: if_splits)
  from g lo hi occ run least g' hi' none run' show ?thesis by (simp add: zero_baseDelimiter_def)
qed

text \<open>
  C2. Anchor boundary. The anchor is what \<^verbatim>\<open>newDelimiter\<close> makes for the empty needle, a
  \<^verbatim>\<open>zeroByte\<close> whose \<^verbatim>\<open>length\<close> is 0. Whatever methods are called afterwards, on it or
  on other objects of the store, for every haystack and every offset (valid or not) its
  \<^verbatim>\<open>IndexOf\<close> returns the offset unchanged and its \<^verbatim>\<open>Len\<close> returns 0.
\<close>

theorem anchor_IndexOf_Len:
  assumes "newDelimiter h [] = (a, h')"
  shows "\<exists>d. deref (store_after_all h' cs) a = Some d \<and> kind_of d = Anchor
           \<and> IndexOf d H offset = Inr offset \<and> Len d = 0"
proof -
  from factory_object_after_calls [OF assms, of cs]
  obtain d where d: "deref (store_after_all h' cs) a = Some d" 
    and fp: "fixed_part d = (Anchor, [], 0)"
    by auto
  from fp have "kind_of d = Anchor" by (simp add: fixed_part_def)
  moreover from IndexOf_Anchor [OF fp] have "IndexOf d H offset = Inr offset" by simp
  moreover from fp have "Len d = 0" by (simp add: Len_fixed_part)
  ultimately show ?thesis using d by blast
qed

theorem anchor_IndexOf_Len_witness:
  "newDelimiter [] [] = (0, [ZeroByte zero_baseDelimiter])
   \<and> deref (store_after_all [ZeroByte zero_baseDelimiter] [(0, CallMarkGreedy)]) 0
       = Some (ZeroByte (zero_baseDelimiter\<lparr>greedy := True\<rparr>))
   \<and> IndexOf (ZeroByte (zero_baseDelimiter\<lparr>greedy := True\<rparr>)) ''hello'' 2 = Inr 2
   \<and> Len (ZeroByte (zero_baseDelimiter\<lparr>greedy := True\<rparr>)) = 0"
proof -
  have new: "newDelimiter [] [] = (0, [ZeroByte zero_baseDelimiter])"
    by (simp add: newDelimiter_def newDelimiter_value_def alloc_def)
  have after: "deref (store_after_all [ZeroByte zero_baseDelimiter] [(0, CallMarkGreedy)]) 0
       = Some (ZeroByte (zero_baseDelimiter\<lparr>greedy := True\<rparr>))"
    by (simp add: store_after_all_def store_after_def call_method_def deref_def MarkGreedy_def
        baseDelimiter_MarkGreedy_def)
  from anchor_IndexOf_Len [OF new, of "[(0, CallMarkGreedy)]" "''hello''" 2] after
  have "IndexOf (ZeroByte (zero_baseDelimiter\<lparr>greedy := True\<rparr>)) ''hello'' 2 = Inr 2
     \<and> Len (ZeroByte (zero_baseDelimiter\<lparr>greedy := True\<rparr>)) = 0"
    by auto
  with new after show ?thesis by simp
qed

text \<open>
  C3. Fixed-length boundary of width \<open>L\<close> (its \<^verbatim>\<open>length\<close> field). For every haystack and
  every offset \<^verbatim>\<open>IndexOf\<close> returns \<^verbatim>\<open>offset + L\<close>, Go's addition on \<^verbatim>\<open>int\<close>; the result
  is the same for any other haystack; and it reads as the sum of the two integers whenever
  that sum is in the range of \<^verbatim>\<open>int\<close>.
\<close>

theorem fixedLengthByte_IndexOf:
  "IndexOf (FixedLengthByte b) H offset = Inr (offset + length_fld b)
   \<and> IndexOf (FixedLengthByte b) H' offset = IndexOf (FixedLengthByte b) H offset
   \<and> (- (2 ^ 63) \<le> sint offset + sint (length_fld b) \<and> sint offset + sint (length_fld b) < 2 ^ 63
        \<longrightarrow> sint (offset + length_fld b) = sint offset + sint (length_fld b))"
  by (simp add: baseDelimiter_IndexOf_def sint_add_small)

theorem fixedLengthByte_IndexOf_witness:
  "IndexOf (FixedLengthByte (zero_baseDelimiter\<lparr>length_fld := 3\<rparr>)) ''hello'' 1 = Inr 4
   \<and> IndexOf (FixedLengthByte (zero_baseDelimiter\<lparr>length_fld := 3\<rparr>)) ''xy'' 1 = Inr 4
   \<and> - (2 ^ 63) \<le> sint (1 :: go_int) + sint (3 :: go_int)
   \<and> sint (1 :: go_int) + sint (3 :: go_int) < 2 ^ 63
   \<and> sint (1 + 3 :: go_int) = sint (1 :: go_int) + sint (3 :: go_int)"
  using fixedLengthByte_IndexOf [of "zero_baseDelimiter\<lparr>length_fld := 3\<rparr>" "''hello''" 1 "''xy''"]
  by (simp add: zero_baseDelimiter_def)

text \<open>
  C4. The factory. \<^verbatim>\<open>newDelimiter\<close> makes a \<^verbatim>\<open>zeroByte{}\<close> (an anchor) for the empty
  needle and a \<^verbatim>\<open>multiByte\<close> with that needle (a substring boundary) for any other; it
  allocates one fresh object and touches no other. The object depends on the needle only:
  two calls with the same needle, in whatever stores, yield equal objects, on which
  \<^verbatim>\<open>IndexOf\<close> (for every haystack and offset) and \<^verbatim>\<open>Len\<close> give the same results.
\<close>

theorem newDelimiter_deterministic:
  "newDelimiter_value [] = ZeroByte zero_baseDelimiter
   \<and> (n \<noteq> [] \<longrightarrow> newDelimiter_value n = MultiByte (zero_baseDelimiter\<lparr>needle := n\<rparr>))
   \<and> kind_of (newDelimiter_value n) = (if n = [] then Anchor else Substring)
   \<and> (newDelimiter h n = (a, h') \<longrightarrow>
        a = length h \<and> deref h a = None \<and> deref h' a = Some (newDelimiter_value n)
        \<and> (\<forall>x. x \<noteq> a \<longrightarrow> deref h' x = deref h x))
   \<and> (newDelimiter h1 n = (a1, h1') \<and> newDelimiter h2 n = (a2, h2') \<longrightarrow>
        deref h1' a1 = deref h2' a2
        \<and> (\<forall>c. map_sum id fst (call_method h1' a1 c) = map_sum id fst (call_method h2' a2 c)))"
proof -
  have 1: "newDelimiter_value [] = ZeroByte zero_baseDelimiter"
    and 2: "n \<noteq> [] \<longrightarrow> newDelimiter_value n = MultiByte (zero_baseDelimiter\<lparr>needle := n\<rparr>)"
    and 3: "kind_of (newDelimiter_value n) = (if n = [] then Anchor else Substring)"
    by (simp_all add: newDelimiter_value_def)
  have 4: "a = length h \<and> deref h a = None \<and> deref h' a = Some (newDelimiter_value n)
        \<and> (\<forall>x. x \<noteq> a \<longrightarrow> deref h' x = deref h x)" if "newDelimiter h n = (a, h')"
    using that by (auto simp: newDelimiter_def alloc_def deref_def nth_append)
  have 5: "deref h1' a1 = deref h2' a2
        \<and> (\<forall>c. map_sum id fst (call_method h1' a1 c) = map_sum id fst (call_method h2' a2 c))"
    if "newDelimiter h1 n = (a1, h1')" and "newDelimiter h2 n = (a2, h2')"
  proof -
    from that have "deref h1' a1 = Some (newDelimiter_value n)"
      and "deref h2' a2 = Some (newDelimiter_value n)"
      by (simp_all add: deref_newDelimiter(4))
    then show ?thesis by (simp add: call_method_def split: sum.splits)
  qed
  from 1 2 3 4 5 show ?thesis by blast
qed

theorem newDelimiter_deterministic_witness:
  "newDelimiter [] [] = (0, [ZeroByte zero_baseDelimiter])
   \<and> deref [] 0 = None
   \<and> deref [ZeroByte zero_baseDelimiter] 0 = Some (newDelimiter_value [])
   \<and> kind_of (newDelimiter_value []) = Anchor
   \<and> newDelimiter [ZeroByte zero_baseDelimiter] []
       = (1, [ZeroByte zero_baseDelimiter, ZeroByte zero_baseDelimiter])
   \<and> deref [ZeroByte zero_baseDelimiter] 0
       = deref [ZeroByte zero_baseDelimiter, ZeroByte zero_baseDelimiter] 1
   \<and> call_method [ZeroByte zero_baseDelimiter] 0 (CallIndexOf ''hello'' 2)
       = Inr (RInt 2, [ZeroByte zero_baseDelimiter])
   \<and> map_sum id fst
        (call_method [ZeroByte zero_baseDelimiter, ZeroByte zero_baseDelimiter] 1
          (CallIndexOf ''hello'' 2))
       = Inr (RInt 2)
   \<and> call_method [ZeroByte zero_baseDelimiter] 0 CallLen = Inr (RInt 0, [ZeroByte zero_baseDelimiter])
   \<and> ''-'' \<noteq> []
   \<and> newDelimiter_value ''-'' = MultiByte (zero_baseDelimiter\<lparr>needle := ''-''\<rparr>)
   \<and> kind_of (newDelimiter_value ''-'') = Substring"
proof -
  let ?z = "ZeroByte zero_baseDelimiter"
  have n1: "newDelimiter [] [] = (0, [?z])"
    by (simp add: newDelimiter_def newDelimiter_value_def alloc_def)
  have n2: "newDelimiter [?z] [] = (1, [?z, ?z])"
    by (simp add: newDelimiter_def newDelimiter_value_def alloc_def)
  note two = newDelimiter_deterministic [where n = "[]" and h = "[]" and a = 0 and h' = "[?z]"
      and ?h1.0 = "[]" and ?a1.0 = 0 and ?h1' = "[?z]"
      and ?h2.0 = "[?z]" and ?a2.0 = 1 and ?h2' = "[?z, ?z]"]
  from two n1 have fresh: "deref [] 0 = None" and obj: "deref [?z] 0 = Some (newDelimiter_value [])"
    by blast+
  from two have k0: "kind_of (newDelimiter_value []) = Anchor" by simp
  from two n1 n2 have same: "deref [?z] 0 = deref [?z, ?z] 1"
    and calls: "map_sum id fst (call_method [?z] 0 (CallIndexOf ''hello'' 2))
                  = map_sum id fst (call_method [?z, ?z] 1 (CallIndexOf ''hello'' 2))"
    by blast+
  have i: "call_method [?z] 0 (CallIndexOf ''hello'' 2) = Inr (RInt 2, [?z])"
    and l: "call_method [?z] 0 CallLen = Inr (RInt 0, [?z])"
    by (simp_all add: call_method_def deref_def baseDelimiter_IndexOf_def baseDelimiter_Len_def
        zero_baseDelimiter_def)
  from calls i
  have i': "map_sum id fst (call_method [?z, ?z] 1 (CallIndexOf ''hello'' 2)) = Inr (RInt 2)"
    by simp
  have ne: "''-'' \<noteq> []" by simp
  from newDelimiter_deterministic [where n = "''-''"] ne
  have v: "newDelimiter_value ''-'' = MultiByte (zero_baseDelimiter\<lparr>needle := ''-''\<rparr>)"
    and k: "kind_of (newDelimiter_value ''-'') = Substring"
    by simp_all
  from n1 fresh obj k0 n2 same i i' l ne v k show ?thesis by (intro conjI)
qed

text \<open>
  C5, as amended. On an anchor or a fixed-length boundary \<^verbatim>\<open>IndexOf\<close> never panics and
  never searches: it returns \<^verbatim>\<open>offset + length\<close>. For an offset \<open>\<ge> 0\<close> and a width
  \<open>\<ge> 0\<close> the result is never the sentinel -1 (for width 0 it is the offset itself), and it
  is non-negative whenever \<^verbatim>\<open>offset + length\<close> does not exceed the largest \<^verbatim>\<open>int\<close>.

  The claim as stated, for every fixed-length boundary and every offset \<open>\<ge> 0\<close>, fails: a
  fixed-length boundary of width -1 returns -1 at offset 0, and one of width 1 returns the
  smallest \<^verbatim>\<open>int\<close> at the largest offset (the counterexample below).
\<close>

theorem arithmetic_kinds_IndexOf:
  assumes "kind_of d \<noteq> Substring"
  shows "IndexOf d H offset = Inr (offset + length_fld (base d))
    \<and> (0 \<le>s offset \<and> length_fld (base d) = 0 \<longrightarrow>
         IndexOf d H offset = Inr offset \<and> offset \<noteq> - 1)
    \<and> (0 \<le>s offset \<and> 0 \<le>s length_fld (base d) \<longrightarrow> IndexOf d H offset \<noteq> Inr (- 1))
    \<and> (0 \<le>s offset \<and> 0 \<le>s length_fld (base d)
          \<and> sint offset + sint (length_fld (base d)) < 2 ^ 63 \<longrightarrow>
         0 \<le>s offset + length_fld (base d))"
proof -
  have eq: "IndexOf d H offset = Inr (offset + length_fld (base d))"
    using assms by (cases d) (simp_all add: baseDelimiter_IndexOf_def)
  have "offset \<noteq> - 1" if "0 \<le>s offset"
    using that by (auto simp: word_sle_eq)
  with eq add_nonneg_not_minus_one [of offset "length_fld (base d)"]
    add_nonneg_small [of offset "length_fld (base d)"]
  show ?thesis by auto
qed

theorem arithmetic_kinds_IndexOf_witness:
  "kind_of (FixedLengthByte (zero_baseDelimiter\<lparr>length_fld := 3\<rparr>)) \<noteq> Substring
   \<and> (0 :: go_int) \<le>s 4 \<and> (0 :: go_int) \<le>s 3 \<and> sint (4 :: go_int) + sint (3 :: go_int) < 2 ^ 63
   \<and> IndexOf (FixedLengthByte (zero_baseDelimiter\<lparr>length_fld := 3\<rparr>)) ''hello'' 4 = Inr 7
   \<and> IndexOf (FixedLengthByte (zero_baseDelimiter\<lparr>length_fld := 3\<rparr>)) ''hello'' 4 \<noteq> Inr (- 1)
   \<and> (0 :: go_int) \<le>s 4 + 3
   \<and> kind_of (ZeroByte zero_baseDelimiter) \<noteq> Substring
   \<and> IndexOf (ZeroByte zero_baseDelimiter) ''hello'' 4 = Inr 4"
  using arithmetic_kinds_IndexOf [of "FixedLengthByte (zero_baseDelimiter\<lparr>length_fld := 3\<rparr>)" "''hello''" 4]
    arithmetic_kinds_IndexOf [of "ZeroByte zero_baseDelimiter" "''hello''" 4]
  by (simp add: zero_baseDelimiter_def baseDelimiter_IndexOf_def word_sle_eq)

theorem arithmetic_kinds_IndexOf_counterexample:
  "IndexOf (FixedLengthByte (zero_baseDelimiter\<lparr>length_fld := - 1\<rparr>)) ''abc'' 0 = Inr (- 1)
   \<and> (0 :: go_int) \<le>s 9223372036854775807
   \<and> IndexOf (FixedLengthByte (zero_baseDelimiter\<lparr>length_fld := 1\<rparr>)) ''abc'' 9223372036854775807
       = Inr (- 9223372036854775808)
   \<and> (- 9223372036854775808 :: go_int) <s 0"
  by (simp add: baseDelimiter_IndexOf_def zero_baseDelimiter_def word_sle_eq word_sless_alt)

text \<open>
  C6. \<^verbatim>\<open>Len\<close> of a substring boundary is the length of its needle, whatever the other
  fields hold (as a signed integer too, the needle being a Go string). For the object the
  factory makes for a needle \<open>n\<close>, after any sequence of calls (of \<^verbatim>\<open>MarkGreedy\<close>,
  \<^verbatim>\<open>SetNext\<close> or any other method, on it or on other objects) the needle is still \<open>n\<close> and
  \<^verbatim>\<open>Len\<close> is the length of \<open>n\<close>; for the anchor (\<open>n\<close> empty) that is 0.
\<close>

theorem Len_is_needle_length:
  "Len (MultiByte m) = of_nat (length (needle m))
   \<and> (go_string (needle m) \<longrightarrow> sint (Len (MultiByte m)) = int (length (needle m)))
   \<and> (newDelimiter h n = (a, h') \<longrightarrow>
        (\<exists>d. deref (store_after_all h' cs) a = Some d
           \<and> kind_of d = (if n = [] then Anchor else Substring)
           \<and> Delimiter d = n
           \<and> Len d = of_nat (length n)
           \<and> (n = [] \<longrightarrow> Len d = 0)))"
proof -
  have 1: "Len (MultiByte m) = of_nat (length (needle m))" by (simp add: multiByte_Len_def)
  have 2: "sint (Len (MultiByte m)) = int (length (needle m))" if "go_string (needle m)"
    using that sint_of_nat_small [of "length (needle m)"] by (simp add: multiByte_Len_def go_string_def)
  have 3: "\<exists>d. deref (store_after_all h' cs) a = Some d
           \<and> kind_of d = (if n = [] then Anchor else Substring)
           \<and> Delimiter d = n
           \<and> Len d = of_nat (length n)
           \<and> (n = [] \<longrightarrow> Len d = 0)" if new: "newDelimiter h n = (a, h')"
  proof -
    from factory_object_after_calls [OF new, of cs]
    obtain d where d: "deref (store_after_all h' cs) a = Some d"
      and fp: "fixed_part d = (if n = [] then Anchor else Substring, n, 0)"
      by blast
    from fp have "kind_of d = (if n = [] then Anchor else Substring)" and "Delimiter d = n"
      by (simp_all add: fixed_part_def Delimiter_def baseDelimiter_Delimiter_def)
    moreover from fp have "Len d = of_nat (length n)" by (simp add: Len_fixed_part)
    ultimately show ?thesis using d by auto
  qed
  from 1 2 3 show ?thesis by blast
qed

theorem Len_is_needle_length_witness:
  "Len (MultiByte (zero_baseDelimiter\<lparr>needle := ''-''\<rparr>)) = 1
   \<and> go_string ''-''
   \<and> sint (Len (MultiByte (zero_baseDelimiter\<lparr>needle := ''-''\<rparr>))) = 1
   \<and> newDelimiter [] ''-'' = (0, [MultiByte (zero_baseDelimiter\<lparr>needle := ''-''\<rparr>)])
   \<and> deref (store_after_all [MultiByte (zero_baseDelimiter\<lparr>needle := ''-''\<rparr>)]
              [(0, CallMarkGreedy), (0, CallSetNext (Some 0))]) 0
        = Some (MultiByte \<lparr>needle = ''-'', length_fld = 0, greedy = True, next_fld = Some 0\<rparr>)
   \<and> Len (MultiByte \<lparr>needle = ''-'', length_fld = 0, greedy = True, next_fld = Some 0\<rparr>) = 1
   \<and> newDelimiter [] [] = (0, [ZeroByte zero_baseDelimiter])
   \<and> deref (store_after_all [ZeroByte zero_baseDelimiter]
              [(0, CallMarkGreedy), (0, CallSetNext (Some 0))]) 0
        = Some (ZeroByte \<lparr>needle = [], length_fld = 0, greedy = True, next_fld = Some 0\<rparr>)
   \<and> Len (ZeroByte \<lparr>needle = [], length_fld = 0, greedy = True, next_fld = Some 0\<rparr>) = 0"
proof -
  let ?m = "zero_baseDelimiter\<lparr>needle := ''-''\<rparr>"
  let ?cs = "[(0, CallMarkGreedy), (0, CallSetNext (Some 0))]"
  note evals = store_after_all_def store_after_def call_method_def deref_def MarkGreedy_def
    SetNext_def baseDelimiter_MarkGreedy_def baseDelimiter_SetNext_def zero_baseDelimiter_def
  have g: "go_string ''-''" by (simp add: go_string_def)
  have new: "newDelimiter [] ''-'' = (0, [MultiByte ?m])"
    by (simp add: newDelimiter_def newDelimiter_value_def alloc_def)
  have after: "deref (store_after_all [MultiByte ?m] ?cs) 0
        = Some (MultiByte \<lparr>needle = ''-'', length_fld = 0, greedy = True, next_fld = Some 0\<rparr>)"
    by (simp add: evals)
  note inst = Len_is_needle_length [of ?m "[]" "''-''" 0 "[MultiByte ?m]" ?cs]
  from inst have 1: "Len (MultiByte ?m) = 1" by (simp add: zero_baseDelimiter_def)
  from inst g have 2: "sint (Len (MultiByte ?m)) = 1" by (simp add: zero_baseDelimiter_def)
  from inst new after
  have 3: "Len (MultiByte \<lparr>needle = ''-'', length_fld = 0, greedy = True, next_fld = Some 0\<rparr>) = 1"
    by auto
  have new0: "newDelimiter [] [] = (0, [ZeroByte zero_baseDelimiter])"
    by (simp add: newDelimiter_def newDelimiter_value_def alloc_def)
  have after0: "deref (store_after_all [ZeroByte zero_baseDelimiter] ?cs) 0
        = Some (ZeroByte \<lparr>needle = [], length_fld = 0, greedy = True, next_fld = Some 0\<rparr>)"
    by (simp add: evals)
  from Len_is_needle_length [of _ "[]" "[]" 0 "[ZeroByte zero_baseDelimiter]" ?cs] new0 after0
  have 4: "Len (ZeroByte \<lparr>needle = [], length_fld = 0, greedy = True, next_fld = Some 0\<rparr>) = 0"
    by auto
  from 1 g 2 new after 3 new0 after0 4 show ?thesis by (intro conjI)
qed

text \<open>
  C7. \<^verbatim>\<open>MarkGreedy\<close> is idempotent: after one call, or any number \<open>k > 0\<close> of calls,
  \<^verbatim>\<open>IsGreedy\<close> is true, and a second call changes nothing. An object fresh from the
  factory is not greedy. No method resets the flag: an object that is greedy stays so
  through every sequence of calls, on it or on other objects.
\<close>

theorem MarkGreedy_idempotent:
  "IsGreedy (MarkGreedy d)
   \<and> MarkGreedy (MarkGreedy d) = MarkGreedy d
   \<and> (0 < k \<longrightarrow> IsGreedy ((MarkGreedy ^^ k) d))
   \<and> (deref h a = Some d \<and> 0 < k \<longrightarrow>
        (\<exists>x. deref (store_after_all h (replicate k (a, CallMarkGreedy))) a = Some x \<and> IsGreedy x))
   \<and> \<not> IsGreedy (newDelimiter_value n)
   \<and> (newDelimiter h0 n = (a0, h') \<longrightarrow> (\<exists>x. deref h' a0 = Some x \<and> \<not> IsGreedy x))
   \<and> (deref h a = Some d \<and> IsGreedy d \<longrightarrow>
        (\<exists>x. deref (store_after_all h cs) a = Some x \<and> IsGreedy x))"
  using IsGreedy_MarkGreedy [of d] MarkGreedy_twice [of d] IsGreedy_MarkGreedy_funpow [of k d]
    greedy_after_marking [of h a d k] not_IsGreedy_newDelimiter_value [of n]
    deref_newDelimiter(4) [of h0 n a0 h'] greedy_after_calls [of h a d cs]
  by (intro conjI impI) auto

theorem MarkGreedy_idempotent_witness:
  "newDelimiter [] ''-'' = (0, [MultiByte (zero_baseDelimiter\<lparr>needle := ''-''\<rparr>)])
   \<and> deref [MultiByte (zero_baseDelimiter\<lparr>needle := ''-''\<rparr>)] 0
        = Some (MultiByte (zero_baseDelimiter\<lparr>needle := ''-''\<rparr>))
   \<and> \<not> IsGreedy (MultiByte (zero_baseDelimiter\<lparr>needle := ''-''\<rparr>))
   \<and> (0 :: nat) < 2
   \<and> IsGreedy ((MarkGreedy ^^ 2) (MultiByte (zero_baseDelimiter\<lparr>needle := ''-''\<rparr>)))
   \<and> deref (store_after_all [MultiByte (zero_baseDelimiter\<lparr>needle := ''-''\<rparr>)]
         (replicate 2 (0, CallMarkGreedy))) 0
        = Some (MultiByte (zero_baseDelimiter\<lparr>needle := ''-'', greedy := True\<rparr>))
   \<and> IsGreedy (MultiByte (zero_baseDelimiter\<lparr>needle := ''-'', greedy := True\<rparr>))
   \<and> deref [MultiByte (zero_baseDelimiter\<lparr>needle := ''-'', greedy := True\<rparr>)] 0
        = Some (MultiByte (zero_baseDelimiter\<lparr>needle := ''-'', greedy := True\<rparr>))
   \<and> deref (store_after_all [MultiByte (zero_baseDelimiter\<lparr>needle := ''-'', greedy := True\<rparr>)]
         [(0, CallSetNext (Some 0)), (0, CallIndexOf ''abc'' 0), (0, CallIsGreedy)]) 0
        = Some (MultiByte (zero_baseDelimiter\<lparr>needle := ''-'', greedy := True, next_fld := Some 0\<rparr>))
   \<and> IsGreedy (MultiByte (zero_baseDelimiter\<lparr>needle := ''-'', greedy := True, next_fld := Some 0\<rparr>))"
proof -
  let ?m = "MultiByte (zero_baseDelimiter\<lparr>needle := ''-''\<rparr>)"
  let ?g = "MultiByte (zero_baseDelimiter\<lparr>needle := ''-'', greedy := True\<rparr>)"
  let ?l = "MultiByte (zero_baseDelimiter\<lparr>needle := ''-'', greedy := True, next_fld := Some 0\<rparr>)"
  let ?cs = "[(0, CallSetNext (Some 0)), (0, CallIndexOf ''abc'' 0), (0, CallIsGreedy)]"
  note evals = store_after_all_def store_after_def call_method_def deref_def MarkGreedy_def
    SetNext_def baseDelimiter_MarkGreedy_def baseDelimiter_SetNext_def zero_baseDelimiter_def
    multiByte_IndexOf_def strings_Index_def IsGreedy_def baseDelimiter_IsGreedy_def
    word_sless_alt numeral_2_eq_2
  have new: "newDelimiter [] ''-'' = (0, [?m])"
    by (simp add: newDelimiter_def newDelimiter_value_def alloc_def)
  have d: "deref [?m] 0 = Some ?m" by (simp add: deref_def)
  have k: "(0 :: nat) < 2" by simp
  have marked: "deref (store_after_all [?m] (replicate 2 (0, CallMarkGreedy))) 0 = Some ?g"
    by (simp add: evals)
  have d': "deref [?g] 0 = Some ?g" by (simp add: deref_def)
  have later: "deref (store_after_all [?g] ?cs) 0 = Some ?l"
    by (simp add: evals)
  from MarkGreedy_idempotent [where ?h0.0 = "[]" and n = "''-''" and ?a0.0 = 0 and h' = "[?m]"] new d
  have fresh: "\<not> IsGreedy ?m" by auto
  from MarkGreedy_idempotent [where h = "[?m]" and a = 0 and d = ?m and k = 2] d k marked
  have twice: "IsGreedy ((MarkGreedy ^^ 2) ?m)" and g: "IsGreedy ?g" by auto
  from MarkGreedy_idempotent [where h = "[?g]" and a = 0 and d = ?g and cs = ?cs] d' g later
  have stays: "IsGreedy ?l" by auto
  from new d fresh k twice marked g d' later stays show ?thesis by (intro conjI)
qed

text \<open>
  C8. Links. After \<^verbatim>\<open>SetNext(B)\<close> on an object, its \<^verbatim>\<open>Next()\<close> returns \<open>B\<close>; after
  \<^verbatim>\<open>SetNext(nil)\<close> it returns \<^verbatim>\<open>nil\<close>. Three objects \<open>A\<close>, \<open>B\<close>, \<open>C\<close> fresh from the
  factory (or any three distinct objects, the last without a successor), linked by
  \<^verbatim>\<open>A.SetNext(B)\<close> and \<^verbatim>\<open>B.SetNext(C)\<close>: the walk from \<open>A\<close> along \<^verbatim>\<open>Next()\<close> ends, having
  visited \<open>A\<close>, \<open>B\<close>, \<open>C\<close> in this order and nothing else.
\<close>

theorem SetNext_Next_roundtrip:
  "Next (SetNext d b) = b
   \<and> (deref h a = Some d \<longrightarrow>
        call_method (store_after h (a, CallSetNext (Some b'))) a CallNext
          = Inr (RDelimiter (Some b'), store_after h (a, CallSetNext (Some b')))
        \<and> call_method (store_after h (a, CallSetNext None)) a CallNext
          = Inr (RDelimiter None, store_after h (a, CallSetNext None)))
   \<and> (newDelimiter h0 n1 = (A0, h1) \<and> newDelimiter h1 n2 = (B0, h2)
        \<and> newDelimiter h2 n3 = (C0, h3) \<longrightarrow>
        traverse (store_after_all h3 [(A0, CallSetNext (Some B0)), (B0, CallSetNext (Some C0))])
          (Some A0) = Some [A0, B0, C0])
   \<and> (deref s A = Some x \<and> deref s B = Some y \<and> deref s C = Some z
        \<and> A \<noteq> B \<and> B \<noteq> C \<and> A \<noteq> C \<and> Next z = None \<longrightarrow>
        traverse (store_after_all s [(A, CallSetNext (Some B)), (B, CallSetNext (Some C))]) (Some A)
          = Some [A, B, C])"
  using Next_SetNext [of d b] call_Next_after_SetNext [of h a d]
    chain_of_three [of h0 n1 A0 h1 n2 B0 h2 n3 C0 h3] chain_of_three_linked [of s A x B y C z]
  by blast

theorem SetNext_Next_roundtrip_witness:
  "newDelimiter [] ''a'' = (0, [newDelimiter_value ''a''])
   \<and> newDelimiter [newDelimiter_value ''a''] [] = (1, [newDelimiter_value ''a'', newDelimiter_value []])
   \<and> newDelimiter [newDelimiter_value ''a'', newDelimiter_value []] ''b''
       = (2, [newDelimiter_value ''a'', newDelimiter_value [], newDelimiter_value ''b''])
   \<and> traverse (store_after_all [newDelimiter_value ''a'', newDelimiter_value [], newDelimiter_value ''b'']
        [(0, CallSetNext (Some 1)), (1, CallSetNext (Some 2))]) (Some 0) = Some [0, 1, 2]
   \<and> deref [FixedLengthByte zero_baseDelimiter, MultiByte zero_baseDelimiter, ZeroByte zero_baseDelimiter] 2
       = Some (ZeroByte zero_baseDelimiter)
   \<and> deref [FixedLengthByte zero_baseDelimiter, MultiByte zero_baseDelimiter, ZeroByte zero_baseDelimiter] 0
       = Some (FixedLengthByte zero_baseDelimiter)
   \<and> deref [FixedLengthByte zero_baseDelimiter, MultiByte zero_baseDelimiter, ZeroByte zero_baseDelimiter] 1
       = Some (MultiByte zero_baseDelimiter)
   \<and> (2 :: nat) \<noteq> 0 \<and> (0 :: nat) \<noteq> 1 \<and> (2 :: nat) \<noteq> 1
   \<and> Next (MultiByte zero_baseDelimiter) = None
   \<and> traverse (store_after_all
         [FixedLengthByte zero_baseDelimiter, MultiByte zero_baseDelimiter, ZeroByte zero_baseDelimiter]
         [(2, CallSetNext (Some 0)), (0, CallSetNext (Some 1))]) (Some 2) = Some [2, 0, 1]
   \<and> deref [newDelimiter_value ''a''] 0 = Some (newDelimiter_value ''a'')
   \<and> call_method (store_after [newDelimiter_value ''a''] (0, CallSetNext (Some 7))) 0 CallNext
       = Inr (RDelimiter (Some 7), [SetNext (newDelimiter_value ''a'') (Some 7)])
   \<and> call_method (store_after [newDelimiter_value ''a''] (0, CallSetNext None)) 0 CallNext
       = Inr (RDelimiter None, [SetNext (newDelimiter_value ''a'') None])"
proof -
  let ?a = "newDelimiter_value ''a''" and ?b = "newDelimiter_value []" and ?c = "newDelimiter_value ''b''"
  let ?s = "[FixedLengthByte zero_baseDelimiter, MultiByte zero_baseDelimiter, ZeroByte zero_baseDelimiter]"
  have A: "newDelimiter [] ''a'' = (0, [?a])" by (simp add: newDelimiter_def alloc_def)
  have B: "newDelimiter [?a] [] = (1, [?a, ?b])" by (simp add: newDelimiter_def alloc_def)
  have C: "newDelimiter [?a, ?b] ''b'' = (2, [?a, ?b, ?c])" by (simp add: newDelimiter_def alloc_def)
  from SetNext_Next_roundtrip [where ?h0.0 = "[]" and ?n1.0 = "''a''" and ?A0.0 = 0
      and ?h1.0 = "[?a]" and ?n2.0 = "[]" and ?B0.0 = 1 and ?h2.0 = "[?a, ?b]"
      and ?n3.0 = "''b''" and ?C0.0 = 2 and ?h3.0 = "[?a, ?b, ?c]"] A B C
  have chain: "traverse (store_after_all [?a, ?b, ?c]
        [(0, CallSetNext (Some 1)), (1, CallSetNext (Some 2))]) (Some 0) = Some [0, 1, 2]"
    by blast
  have d2: "deref ?s 2 = Some (ZeroByte zero_baseDelimiter)"
    and d0: "deref ?s 0 = Some (FixedLengthByte zero_baseDelimiter)"
    and d1: "deref ?s 1 = Some (MultiByte zero_baseDelimiter)"
    by (simp_all add: deref_def)
  have ne: "(2 :: nat) \<noteq> 0" "(0 :: nat) \<noteq> 1" "(2 :: nat) \<noteq> 1" by simp_all
  have last: "Next (MultiByte zero_baseDelimiter) = None"
    by (simp add: Next_def baseDelimiter_Next_def zero_baseDelimiter_def)
  from SetNext_Next_roundtrip [where s = ?s and A = 2 and B = 0 and C = 1
      and x = "ZeroByte zero_baseDelimiter" and y = "FixedLengthByte zero_baseDelimiter"
      and z = "MultiByte zero_baseDelimiter"] d2 d0 d1 ne last
  have linked: "traverse (store_after_all ?s [(2, CallSetNext (Some 0)), (0, CallSetNext (Some 1))])
      (Some 2) = Some [2, 0, 1]"
    by blast
  have d: "deref [?a] 0 = Some ?a" by (simp add: deref_def)
  have s: "store_after [?a] (0, CallSetNext n) = [SetNext ?a n]" for n
    by (simp add: store_after_def call_method_def deref_def)
  from SetNext_Next_roundtrip [where h = "[?a]" and a = 0 and d = ?a and b' = 7] d
  have "call_method (store_after [?a] (0, CallSetNext (Some 7))) 0 CallNext
          = Inr (RDelimiter (Some 7), store_after [?a] (0, CallSetNext (Some 7)))"
    and "call_method (store_after [?a] (0, CallSetNext None)) 0 CallNext
          = Inr (RDelimiter None, store_after [?a] (0, CallSetNext None))"
    by blast+
  then have set: "call_method (store_after [?a] (0, CallSetNext (Some 7))) 0 CallNext
          = Inr (RDelimiter (Some 7), [SetNext ?a (Some 7)])"
    and clear: "call_method (store_after [?a] (0, CallSetNext None)) 0 CallNext
          = Inr (RDelimiter None, [SetNext ?a None])"
    by (simp_all only: s)
  from A B C chain d2 d0 d1 ne last linked d set clear show ?thesis by (intro conjI)
qed

text \<open>
  C9. Substring boundary, offset out of range. \<^verbatim>\<open>IndexOf\<close> panics (the slice expression
  \<^verbatim>\<open>haystack[offset:]\<close> is out of range) exactly when the offset is negative or exceeds
  the length of the haystack; no index is returned then, clamped or otherwise, and the
  call through a pointer panics as well.
\<close>

theorem multiByte_IndexOf_out_of_range:
  "(IndexOf (MultiByte m) H offset = Inl SliceBoundsOutOfRange)
     = (offset <s 0 \<or> int (length H) < sint offset)
   \<and> (deref h a = Some (MultiByte m) \<and> (offset <s 0 \<or> int (length H) < sint offset) \<longrightarrow>
        call_method h a (CallIndexOf H offset) = Inl SliceBoundsOutOfRange)"
  by (auto simp: multiByte_IndexOf_def call_method_def Let_def)

theorem multiByte_IndexOf_out_of_range_witness:
  "(- 1 :: go_int) <s 0
   \<and> IndexOf (MultiByte (zero_baseDelimiter\<lparr>needle := ''-''\<rparr>)) ''2021-01-01'' (- 1)
       = Inl SliceBoundsOutOfRange
   \<and> int (length ''2021-01-01'') < sint (11 :: go_int)
   \<and> IndexOf (MultiByte (zero_baseDelimiter\<lparr>needle := ''-''\<rparr>)) ''2021-01-01'' 11
       = Inl SliceBoundsOutOfRange
   \<and> deref [MultiByte (zero_baseDelimiter\<lparr>needle := ''-''\<rparr>)] 0
       = Some (MultiByte (zero_baseDelimiter\<lparr>needle := ''-''\<rparr>))
   \<and> call_method [MultiByte (zero_baseDelimiter\<lparr>needle := ''-''\<rparr>)] 0 (CallIndexOf ''2021-01-01'' 11)
       = Inl SliceBoundsOutOfRange"
proof -
  let ?m = "zero_baseDelimiter\<lparr>needle := ''-''\<rparr>"
  have neg: "(- 1 :: go_int) <s 0" by (simp add: word_sless_alt)
  have big: "int (length ''2021-01-01'') < sint (11 :: go_int)" by simp
  have d: "deref [MultiByte ?m] 0 = Some (MultiByte ?m)" by (simp add: deref_def)
  from multiByte_IndexOf_out_of_range [of ?m "''2021-01-01''" "- 1" "[]" 0] neg
  have 1: "IndexOf (MultiByte ?m) ''2021-01-01'' (- 1) = Inl SliceBoundsOutOfRange" by blast
  from multiByte_IndexOf_out_of_range [of ?m "''2021-01-01''" 11 "[MultiByte ?m]" 0] big d
  have 2: "IndexOf (MultiByte ?m) ''2021-01-01'' 11 = Inl SliceBoundsOutOfRange"
    and 3: "call_method [MultiByte ?m] 0 (CallIndexOf ''2021-01-01'' 11) = Inl SliceBoundsOutOfRange"
    by blast+
  from neg big d 1 2 3 show ?thesis by (intro conjI)
qed

text \<open>
  C10. Frames. \<^verbatim>\<open>IndexOf\<close>, \<^verbatim>\<open>Len\<close>, \<^verbatim>\<open>Delimiter\<close>, \<^verbatim>\<open>String\<close>, \<^verbatim>\<open>IsGreedy\<close> and
  \<^verbatim>\<open>Next\<close> leave the receiver, and the whole store, as they were. \<^verbatim>\<open>MarkGreedy\<close> sets
  the greedy flag and nothing else: the dynamic type, needle, \<^verbatim>\<open>length\<close>, next link and
  \<^verbatim>\<open>Len\<close> are unchanged. \<^verbatim>\<open>SetNext\<close> sets the next link and nothing else: the dynamic
  type, needle, \<^verbatim>\<open>length\<close>, greedy flag and \<^verbatim>\<open>Len\<close> are unchanged. No call changes an
  object other than its receiver.
\<close>

theorem methods_frame:
  "(is_observer c \<longrightarrow> store_after h (a, c) = h)
   \<and> (is_observer c \<and> invoke d c = Inr (v, d') \<longrightarrow> d' = d)
   \<and> is_observer (CallIndexOf H offset) \<and> is_observer CallLen \<and> is_observer CallDelimiter
   \<and> is_observer CallString \<and> is_observer CallIsGreedy \<and> is_observer CallNext
   \<and> invoke d CallMarkGreedy = Inr (RUnit, MarkGreedy d)
   \<and> kind_of (MarkGreedy d) = kind_of d
   \<and> base (MarkGreedy d) = (base d)\<lparr>greedy := True\<rparr>
   \<and> needle (base (MarkGreedy d)) = needle (base d)
   \<and> length_fld (base (MarkGreedy d)) = length_fld (base d)
   \<and> next_fld (base (MarkGreedy d)) = next_fld (base d)
   \<and> Len (MarkGreedy d) = Len d
   \<and> invoke d (CallSetNext n) = Inr (RUnit, SetNext d n)
   \<and> kind_of (SetNext d n) = kind_of d
   \<and> base (SetNext d n) = (base d)\<lparr>next_fld := n\<rparr>
   \<and> needle (base (SetNext d n)) = needle (base d)
   \<and> length_fld (base (SetNext d n)) = length_fld (base d)
   \<and> greedy (base (SetNext d n)) = greedy (base d)
   \<and> Len (SetNext d n) = Len d
   \<and> (x \<noteq> a \<longrightarrow> deref (store_after h (a, c)) x = deref h x)"
  using store_after_observer [of c h a] invoke_observer [of c d v d']
    deref_store_after_other [of x a h c]
    Len_unchanged [OF fixed_part_MarkGreedy [of d]] Len_unchanged [OF fixed_part_SetNext [of d n]]
  by (simp add: base_MarkGreedy base_SetNext kind_of_MarkGreedy kind_of_SetNext)

theorem methods_frame_witness:
  "is_observer (CallIndexOf ''2021-01-01'' 0)
   \<and> invoke (MultiByte (zero_baseDelimiter\<lparr>needle := ''-''\<rparr>)) (CallIndexOf ''2021-01-01'' 0)
       = Inr (RInt 4, MultiByte (zero_baseDelimiter\<lparr>needle := ''-''\<rparr>))
   \<and> store_after [MultiByte (zero_baseDelimiter\<lparr>needle := ''-''\<rparr>), ZeroByte zero_baseDelimiter]
        (0, CallIndexOf ''2021-01-01'' 0)
       = [MultiByte (zero_baseDelimiter\<lparr>needle := ''-''\<rparr>), ZeroByte zero_baseDelimiter]
   \<and> (1 :: nat) \<noteq> 0
   \<and> deref (store_after [MultiByte (zero_baseDelimiter\<lparr>needle := ''-''\<rparr>), ZeroByte zero_baseDelimiter]
        (0, CallMarkGreedy)) 1 = Some (ZeroByte zero_baseDelimiter)"
proof -
  let ?m = "MultiByte (zero_baseDelimiter\<lparr>needle := ''-''\<rparr>)"
  let ?h = "[?m, ZeroByte zero_baseDelimiter]"
  have obs: "is_observer (CallIndexOf ''2021-01-01'' 0)" by simp
  have run: "invoke ?m (CallIndexOf ''2021-01-01'' 0) = Inr (RInt 4, ?m)"
    by (simp add: multiByte_IndexOf_def strings_Index_def zero_baseDelimiter_def word_sless_alt)
  from methods_frame [where c = "CallIndexOf ''2021-01-01'' 0" and h = ?h and a = 0] obs
  have same: "store_after ?h (0, CallIndexOf ''2021-01-01'' 0) = ?h" by blast
  have ne: "(1 :: nat) \<noteq> 0" by simp
  from methods_frame [where c = CallMarkGreedy and h = ?h and a = 0 and x = 1] ne
  have "deref (store_after ?h (0, CallMarkGreedy)) 1 = deref ?h 1" by blast
  then have other: "deref (store_after ?h (0, CallMarkGreedy)) 1 = Some (ZeroByte zero_baseDelimiter)"
    by (simp add: deref_def)
  from obs run same ne other show ?thesis by (intro conjI)
qed

end
